theory Spec2Isabelle
  imports Complex_Main "HOL-Library.AList"
begin

section \<open>Rate-monotonic scheduling simulator (vss-xxy.py)\<close>

text \<open>
  The simulator keeps a list of task objects, a list of references to the tasks that
  have an outstanding job, a dictionary of next release times keyed by task id, and a
  log of what ran at each tick. The task objects are shared between the task list and
  the active list, so the model keeps them in one store (the task list) and the active
  list holds positions in that store.

  Python integers are unbounded: they are \<open>int\<close> here. The only randomness is the value
  returned by \<open>truncnorm.rvs\<close>; it is injected as a function \<open>rnd\<close> from the number of
  draws made so far to the value drawn, and the number of draws is part of the state.
\<close>

subsection \<open>Horizon: lcm and lcm_of_list\<close>





subsection \<open>Execution-time sampler\<close>

text \<open>Python's \<open>round\<close> on a float: to the nearest integer, a tie to the even one.\<close>

definition py_round :: "real \<Rightarrow> int" where
  "py_round x =
     (let f = \<lfloor>x\<rfloor>; d = x - of_int f
      in if d < 1 / 2 then f
         else if 1 / 2 < d then f + 1
         else if even f then f else f + 1)"

text \<open>
  \<open>generate_execution_time\<close>: the mean, deviation and bounds only parametrise the library
  draw, whose value is \<open>rnd k\<close>. A draw is consumed only when \<open>bcet \<noteq> wcet\<close>. What the
  library does when asked to draw from an empty interval (\<open>bcet > wcet\<close>) is not part of
  the source; statements that depend on it are made for \<open>bcet \<le> wcet\<close>.
\<close>

definition generate_execution_time :: "(nat \<Rightarrow> real) \<Rightarrow> nat \<Rightarrow> int \<Rightarrow> int \<Rightarrow> int \<times> nat" where
  "generate_execution_time rnd k b w =
     (if b = w then (max 1 b, k)
      else (max 1 (py_round (rnd k)), Suc k))"

subsection \<open>Task\<close>

record Task =
  task_id :: string
  period :: int
  deadline :: int
  priority :: int
  bcet :: int
  wcet :: int
  execution_time :: int
  release_time :: int
  remaining_time :: int
  completion_time :: "int option"
  response_time :: "int option"
  wcrt :: int

definition Task_init ::
  "(nat \<Rightarrow> real) \<Rightarrow> nat \<Rightarrow> string \<Rightarrow> int \<Rightarrow> int \<Rightarrow> int \<Rightarrow> int \<Rightarrow> int \<Rightarrow> Task \<times> nat" where
  "Task_init rnd k tid b w p d pr =
     (let (e, k') = generate_execution_time rnd k b w
      in (\<lparr>task_id = tid, period = p, deadline = d, priority = pr, bcet = b, wcet = w,
           execution_time = e, release_time = 0, remaining_time = e,
           completion_time = None, response_time = None, wcrt = 0\<rparr>, k'))"

definition release_new_job :: "(nat \<Rightarrow> real) \<Rightarrow> nat \<Rightarrow> Task \<Rightarrow> int \<Rightarrow> Task \<times> nat" where
  "release_new_job rnd k t ct =
     (let (e, k') = generate_execution_time rnd k (bcet t) (wcet t)
      in (t\<lparr>release_time := ct, execution_time := e, remaining_time := e,
            completion_time := None, response_time := None\<rparr>, k'))"

definition is_ready :: "Task \<Rightarrow> int \<Rightarrow> bool" where
  "is_ready t ct \<longleftrightarrow> release_time t \<le> ct \<and> 0 < remaining_time t"

definition execute :: "Task \<Rightarrow> int \<Rightarrow> Task \<times> bool" where
  "execute t u =
     (let r = max 0 (remaining_time t - u)
      in (t\<lparr>remaining_time := r\<rparr>, r = 0))"

definition calculate_response_time :: "Task \<Rightarrow> int \<Rightarrow> Task" where
  "calculate_response_time t ct =
     t\<lparr>completion_time := Some ct,
       response_time := Some (ct - release_time t),
       wcrt := max (wcrt t) (ct - release_time t)\<rparr>"

subsection \<open>Loading the rows of the CSV file\<close>



subsection \<open>Scheduler state\<close>

text \<open>The lines the scheduler prints, as events.\<close>

datatype event =
    Released int string int
  | Ran int string int
  | Completed int string "int option"

record sched =
  current_time :: int
  tasks :: "Task list"
  active_jobs :: "nat list"
  job_release_times :: "(string \<times> int) list"
  schedule_log :: "(int \<times> string) list"
  printed :: "event list"
  rng :: nat

text \<open>\<open>job_release_times[k]\<close>; every key read is a task id the dictionary was built from.\<close>

definition jrt_get :: "(string \<times> int) list \<Rightarrow> string \<Rightarrow> int" where
  "jrt_get d k = the (map_of d k)"

definition AdvanceTime :: "int \<Rightarrow> Task list \<Rightarrow> (string \<times> int) list \<Rightarrow> nat list \<Rightarrow> int" where
  "AdvanceTime ct ts d act =
     (if act \<noteq> [] then 1
      else let future_release_times = filter (\<lambda>t. ct < t) (map snd d)
           in if future_release_times \<noteq> [] then min_list future_release_times - ct
              else 1)"

text \<open>One pass of the release loop body, for the task at position \<open>i\<close>.\<close>

definition release_one :: "(nat \<Rightarrow> real) \<Rightarrow> nat \<Rightarrow> sched \<Rightarrow> sched" where
  "release_one rnd i s =
     (let t = tasks s ! i
      in if current_time s = jrt_get (job_release_times s) (task_id t) then
           let (t', k') = release_new_job rnd (rng s) t (current_time s)
           in s\<lparr>tasks := (tasks s)[i := t'],
                active_jobs := active_jobs s @ [i],
                job_release_times :=
                  AList.update (task_id t')
                    (jrt_get (job_release_times s) (task_id t') + period t')
                    (job_release_times s),
                printed := printed s @ [Released (current_time s) (task_id t') (execution_time t')],
                rng := k'\<rparr>
         else s)"

definition release_step :: "(nat \<Rightarrow> real) \<Rightarrow> sched \<Rightarrow> sched" where
  "release_step rnd s = fold (release_one rnd) [0..<length (tasks s)] s"

text \<open>
  Steps 2 and 3: sort the active list by priority (Python's sort is stable, as
  \<open>sort_key\<close> is), run its head for one tick, and complete it when it reports finished.
  \<open>active_jobs.remove(current_job)\<close> removes the first reference to that object.
\<close>

definition dispatch :: "sched \<Rightarrow> sched" where
  "dispatch s =
     (let act = sort_key (\<lambda>i. priority (tasks s ! i)) (active_jobs s);
          ct = current_time s
      in case act of
           [] \<Rightarrow> s\<lparr>active_jobs := act, schedule_log := schedule_log s @ [(ct, ''Idle'')]\<rparr>
         | j # _ \<Rightarrow>
             let (t', finished) = execute (tasks s ! j) 1;
                 s1 = s\<lparr>tasks := (tasks s)[j := t'],
                        active_jobs := act,
                        schedule_log := schedule_log s @ [(ct, task_id t')],
                        printed := printed s @ [Ran ct (task_id t') (remaining_time t')]\<rparr>
             in if finished then
                  let t'' = calculate_response_time t' (ct + 1)
                  in s1\<lparr>tasks := (tasks s1)[j := t''],
                        active_jobs := remove1 j act,
                        printed := printed s1 @ [Completed (ct + 1) (task_id t'') (response_time t'')]\<rparr>
                else s1)"

definition advance :: "sched \<Rightarrow> sched" where
  "advance s =
     s\<lparr>current_time := current_time s +
         AdvanceTime (current_time s) (tasks s) (job_release_times s) (active_jobs s)\<rparr>"

definition iteration :: "(nat \<Rightarrow> real) \<Rightarrow> sched \<Rightarrow> sched" where
  "iteration rnd s = advance (dispatch (release_step rnd s))"

lemma min_list_in_set:
  fixes xs :: "int list"
  assumes "xs \<noteq> []"
  shows "min_list xs \<in> set xs"
proof -
  have "Min (set xs) \<in> set xs"
    using assms by (intro Min_in) simp_all
  with assms show ?thesis by (simp add: min_list_Min)
qed

lemma min_list_filter_greater:
  fixes ct :: int
  assumes "filter (\<lambda>t. ct < t) xs \<noteq> []"
  shows "ct < min_list (filter (\<lambda>t. ct < t) xs)"
  using min_list_in_set [OF assms] by simp

lemma AdvanceTime_pos: "0 < AdvanceTime ct ts d act"
proof (cases "act = []")
  case False
  then show ?thesis by (simp add: AdvanceTime_def)
next
  case True
  show ?thesis
  proof (cases "filter (\<lambda>t. ct < t) (map snd d) = []")
    case True
    with \<open>act = []\<close> show ?thesis by (simp add: AdvanceTime_def)
  next
    case False
    from min_list_filter_greater [OF False] False \<open>act = []\<close>
    show ?thesis by (simp add: AdvanceTime_def Let_def del: filter_map)
  qed
qed

lemma current_time_release_one [simp]: "current_time (release_one rnd i s) = current_time s"
  by (simp add: release_one_def Let_def split: prod.splits)

lemma current_time_release_step [simp]: "current_time (release_step rnd s) = current_time s"
proof -
  have "current_time (fold (release_one rnd) js s) = current_time s" for js
    by (induction js arbitrary: s) simp_all
  then show ?thesis by (simp add: release_step_def)
qed

lemma current_time_dispatch [simp]: "current_time (dispatch s) = current_time s"
  by (simp add: dispatch_def Let_def split: list.splits prod.splits)

lemma current_time_iteration:
  "current_time (iteration rnd s) =
     current_time s +
       AdvanceTime (current_time s) (tasks (dispatch (release_step rnd s)))
         (job_release_times (dispatch (release_step rnd s)))
         (active_jobs (dispatch (release_step rnd s)))"
  by (simp add: iteration_def advance_def)

lemma iteration_advances: "current_time s < current_time (iteration rnd s)"
  using AdvanceTime_pos by (simp add: current_time_iteration)

text \<open>The \<open>while current_time < simulation_time\<close> loop.\<close>

function rms_loop :: "(nat \<Rightarrow> real) \<Rightarrow> int \<Rightarrow> sched \<Rightarrow> sched" where
  "rms_loop rnd simulation_time s =
     (if current_time s < simulation_time
      then rms_loop rnd simulation_time (iteration rnd s)
      else s)"
  by pat_completeness auto
termination
proof (relation "measure (\<lambda>(rnd, simulation_time, s). nat (simulation_time - current_time s))")
  show "wf (measure (\<lambda>(rnd, simulation_time, s). nat (simulation_time - current_time s)))"
    by simp
next
  fix rnd :: "nat \<Rightarrow> real" and simulation_time :: int and s :: sched
  assume "current_time s < simulation_time"
  with iteration_advances [of s rnd]
  show "((rnd, simulation_time, iteration rnd s), (rnd, simulation_time, s))
          \<in> measure (\<lambda>(rnd, simulation_time, s). nat (simulation_time - current_time s))"
    by simp
qed

declare rms_loop.simps [simp del]

text \<open>The state before the loop; \<open>k\<close> is the number of draws made before the call.\<close>

definition sched_init :: "nat \<Rightarrow> Task list \<Rightarrow> sched" where
  "sched_init k ts =
     \<lparr>current_time = 0, tasks = ts, active_jobs = [],
      job_release_times = fold (\<lambda>t d. AList.update (task_id t) 0 d) ts [],
      schedule_log = [], printed = [], rng = k\<rparr>"

text \<open>
  \<open>rate_monotonic_scheduling\<close> returns the log and leaves the task objects mutated; the
  model returns the final state, from which both are read.
\<close>

definition rate_monotonic_scheduling :: "(nat \<Rightarrow> real) \<Rightarrow> nat \<Rightarrow> Task list \<Rightarrow> int \<Rightarrow> sched" where
  "rate_monotonic_scheduling rnd k ts simulation_time =
     rms_loop rnd simulation_time (sched_init k ts)"

text \<open>Step 5 prints each task's id and \<open>wcrt\<close>.\<close>

definition wcrt_report :: "sched \<Rightarrow> (string \<times> int) list" where
  "wcrt_report s = map (\<lambda>t. (task_id t, wcrt t)) (tasks s)"


text \<open>
  The values \<open>current_time\<close> holds each time the loop condition is tested, the last one
  being the value the loop exits with.
\<close>

function rms_times :: "(nat \<Rightarrow> real) \<Rightarrow> int \<Rightarrow> sched \<Rightarrow> int list" where
  "rms_times rnd simulation_time s =
     current_time s #
       (if current_time s < simulation_time
        then rms_times rnd simulation_time (iteration rnd s)
        else [])"
  by pat_completeness auto
termination
proof (relation "measure (\<lambda>(rnd, simulation_time, s). nat (simulation_time - current_time s))")
  show "wf (measure (\<lambda>(rnd, simulation_time, s). nat (simulation_time - current_time s)))"
    by simp
next
  fix rnd :: "nat \<Rightarrow> real" and simulation_time :: int and s :: sched
  assume "current_time s < simulation_time"
  with iteration_advances [of s rnd]
  show "((rnd, simulation_time, iteration rnd s), (rnd, simulation_time, s))
          \<in> measure (\<lambda>(rnd, simulation_time, s). nat (simulation_time - current_time s))"
    by simp
qed

declare rms_times.simps [simp del]

text \<open>A random source for runs that never draw (every task has \<open>bcet = wcet\<close>).\<close>

definition no_draws :: "nat \<Rightarrow> real" where
  "no_draws k = 0"

section \<open>Concrete runs\<close>

lemmas sched_eval =
  rate_monotonic_scheduling_def sched_init_def iteration_def advance_def dispatch_def
  release_step_def release_one_def release_new_job_def generate_execution_time_def execute_def
  calculate_response_time_def AdvanceTime_def jrt_get_def Task_init_def Let_def wcrt_report_def

text \<open>
  C1. Task A (period 4, bcet = wcet = 1, priority 1) and task B (period 6, bcet = wcet = 2,
  priority 2), horizon 12, whatever the deadlines and the random source: A is released at
  0, 4 and 8 and each job completes one tick later with response time 1; B is released
  at 0, runs at ticks 1 and 2 and completes at 3 with response time 3; B is released at
  6, runs at ticks 6 and 7 and completes at 8 with response time 2; the worst-case
  response times are 1 for A and 3 for B.
\<close>

theorem two_task_scenario:
  "schedule_log (rate_monotonic_scheduling rnd k
       [fst (Task_init rnd0 k0 ''A'' 1 1 4 dA 1), fst (Task_init rnd1 k1 ''B'' 2 2 6 dB 2)] 12)
     = [(0, ''A''), (1, ''B''), (2, ''B''), (4, ''A''), (6, ''B''), (7, ''B''), (8, ''A'')]
   \<and> printed (rate_monotonic_scheduling rnd k
       [fst (Task_init rnd0 k0 ''A'' 1 1 4 dA 1), fst (Task_init rnd1 k1 ''B'' 2 2 6 dB 2)] 12)
     = [Released 0 ''A'' 1, Released 0 ''B'' 2, Ran 0 ''A'' 0, Completed 1 ''A'' (Some 1),
        Ran 1 ''B'' 1, Ran 2 ''B'' 0, Completed 3 ''B'' (Some 3),
        Released 4 ''A'' 1, Ran 4 ''A'' 0, Completed 5 ''A'' (Some 1),
        Released 6 ''B'' 2, Ran 6 ''B'' 1, Ran 7 ''B'' 0, Completed 8 ''B'' (Some 2),
        Released 8 ''A'' 1, Ran 8 ''A'' 0, Completed 9 ''A'' (Some 1)]
   \<and> wcrt_report (rate_monotonic_scheduling rnd k
       [fst (Task_init rnd0 k0 ''A'' 1 1 4 dA 1), fst (Task_init rnd1 k1 ''B'' 2 2 6 dB 2)] 12)
     = [(''A'', 1), (''B'', 3)]"
  by (simp add: sched_eval rms_loop.simps)

text \<open>
  C3, as the code has it. A single task with period 10 and bcet = wcet = 1, horizon 10:
  the job runs at tick 0 and completes at tick 1; the loop body runs once, and the time
  advance of that one iteration takes \<open>current_time\<close> from 0 directly to 10, so that no
  tick from 1 to 9 is iterated; the task's worst-case response time is 1 and the log
  holds the single entry for tick 0.
\<close>

theorem idle_skip_scenario:
  "rms_times rnd 10 (sched_init k [fst (Task_init rnd0 k0 ''T'' 1 1 10 d 1)]) = [0, 10]
   \<and> schedule_log (rate_monotonic_scheduling rnd k [fst (Task_init rnd0 k0 ''T'' 1 1 10 d 1)] 10)
       = [(0, ''T'')]
   \<and> printed (rate_monotonic_scheduling rnd k [fst (Task_init rnd0 k0 ''T'' 1 1 10 d 1)] 10)
       = [Released 0 ''T'' 1, Ran 0 ''T'' 0, Completed 1 ''T'' (Some 1)]
   \<and> wcrt_report (rate_monotonic_scheduling rnd k [fst (Task_init rnd0 k0 ''T'' 1 1 10 d 1)] 10)
       = [(''T'', 1)]"
  by (simp add: sched_eval rms_loop.simps rms_times.simps)

text \<open>
  C3 as stated has the clock jump from 1 to 10. In that run \<open>current_time\<close> is 0 and
  then 10: it never holds the value 1.
\<close>

theorem idle_skip_counterexample:
  "rms_times no_draws 10 (sched_init 0 [fst (Task_init no_draws 0 ''T'' 1 1 10 10 1)]) = [0, 10]
   \<and> 1 \<notin> set (rms_times no_draws 10 (sched_init 0 [fst (Task_init no_draws 0 ''T'' 1 1 10 10 1)]))"
  by (simp add: sched_eval rms_loop.simps rms_times.simps)

section \<open>The execution-time sampler\<close>

lemma py_round_cases:
  "py_round x = \<lfloor>x\<rfloor> \<or> (py_round x = \<lfloor>x\<rfloor> + 1 \<and> 1 / 2 \<le> x - of_int \<lfloor>x\<rfloor>)"
  by (simp add: py_round_def Let_def)

lemma py_round_lower:
  assumes "of_int b \<le> x"
  shows "b \<le> py_round x"
proof -
  from assms have "b \<le> \<lfloor>x\<rfloor>" by (simp add: le_floor_iff)
  with py_round_cases [of x] show ?thesis by auto
qed

lemma py_round_upper:
  assumes "x \<le> of_int w"
  shows "py_round x \<le> w"
proof -
  from assms have fl: "\<lfloor>x\<rfloor> \<le> w" by (simp add: floor_le_iff)
  from py_round_cases [of x] show ?thesis
  proof
    assume "py_round x = \<lfloor>x\<rfloor>"
    with fl show ?thesis by simp
  next
    assume up: "py_round x = \<lfloor>x\<rfloor> + 1 \<and> 1 / 2 \<le> x - of_int \<lfloor>x\<rfloor>"
    then have "of_int \<lfloor>x\<rfloor> < x" by simp
    with assms have "(of_int \<lfloor>x\<rfloor> :: real) < of_int w" by simp
    then have "\<lfloor>x\<rfloor> < w" by (simp only: of_int_less_iff)
    with up show ?thesis by simp
  qed
qed

text \<open>
  C5, as the code has it. For integers \<open>0 \<le> bcet \<le> wcet\<close>: when \<open>bcet = wcet\<close> the sampler
  returns \<open>max 1 bcet\<close> without drawing; otherwise, for a draw in \<open>[bcet, wcet]\<close>, it returns
  an integer in \<open>[max 1 bcet, wcet]\<close>. In both cases the result lies in
  \<open>[max 1 bcet, max 1 wcet]\<close>, which is \<open>[max 1 bcet, wcet]\<close> as soon as \<open>wcet \<ge> 1\<close>.
\<close>

theorem sampler_range:
  assumes "0 \<le> b" and "b \<le> w"
    and "b \<noteq> w \<longrightarrow> of_int b \<le> rnd k \<and> rnd k \<le> of_int w"
  shows "(b = w \<longrightarrow> generate_execution_time rnd k b w = (max 1 b, k))
       \<and> (b \<noteq> w \<longrightarrow> max 1 b \<le> fst (generate_execution_time rnd k b w)
                    \<and> fst (generate_execution_time rnd k b w) \<le> w)
       \<and> max 1 b \<le> fst (generate_execution_time rnd k b w)
       \<and> fst (generate_execution_time rnd k b w) \<le> max 1 w"
proof (cases "b = w")
  case True
  then show ?thesis by (simp add: generate_execution_time_def)
next
  case False
  with assms have lo: "b \<le> py_round (rnd k)" and hi: "py_round (rnd k) \<le> w"
    by (simp_all add: py_round_lower py_round_upper)
  from False assms have "1 \<le> w" by simp
  with False lo hi show ?thesis by (simp add: generate_execution_time_def)
qed

theorem sampler_range_witness:
  "(0::int) \<le> 1 \<and> (1::int) \<le> 4
   \<and> fst (generate_execution_time (\<lambda>k. 5 / 2) 0 1 4) = 2
   \<and> max 1 1 \<le> fst (generate_execution_time (\<lambda>k. 5 / 2) 0 1 4)
   \<and> fst (generate_execution_time (\<lambda>k. 5 / 2) 0 1 4) \<le> 4"
  using sampler_range [of 1 4 "\<lambda>k. 5 / 2" 0]
  by (simp add: generate_execution_time_def py_round_def)

text \<open>
  C5 as stated puts every sampled execution time in \<open>[max 1 bcet, wcet]\<close>. With
  \<open>bcet = wcet = 0\<close> the sampler returns 1, which is above \<open>wcet\<close>.
\<close>

theorem sampler_range_counterexample:
  "fst (generate_execution_time no_draws 0 0 0) = 1
   \<and> \<not> (max 1 0 \<le> fst (generate_execution_time no_draws 0 0 0)
         \<and> fst (generate_execution_time no_draws 0 0 0) \<le> 0)"
  by (simp add: generate_execution_time_def)

section \<open>Construction of the task set\<close>







section \<open>The scheduler loop\<close>

text \<open>The job the dispatch step runs: the head of the active list once sorted by priority.\<close>

definition current_job :: "sched \<Rightarrow> nat" where
  "current_job s = hd (sort_key (\<lambda>i. priority (tasks s ! i)) (active_jobs s))"


subsection \<open>Induction rules for the release loop and the main loop\<close>

lemma release_step_induct:
  assumes "P s"
    and "\<And>i s'. i < length (tasks s) \<Longrightarrow> P s' \<Longrightarrow> P (release_one rnd i s')"
  shows "P (release_step rnd s)"
proof -
  have "P (fold (release_one rnd) js s')"
    if "P s'" and "\<forall>i \<in> set js. i < length (tasks s)" for js s'
    using that
  proof (induction js arbitrary: s')
    case Nil
    then show ?case by simp
  next
    case (Cons i js)
    from Cons.prems have "P (release_one rnd i s')" by (simp add: assms(2))
    with Cons.IH [of "release_one rnd i s'"] Cons.prems show ?case by simp
  qed
  from this [OF assms(1), of "[0..<length (tasks s)]"] show ?thesis
    by (simp add: release_step_def)
qed

lemma rms_loop_invariant:
  assumes "I s"
    and "\<And>s'. I s' \<Longrightarrow> current_time s' < simulation_time \<Longrightarrow> I (iteration rnd s')"
  shows "I (rms_loop rnd simulation_time s)"
  using assms
proof (induction rnd simulation_time s rule: rms_loop.induct)
  case (1 rnd simulation_time s)
  show ?case
  proof (cases "current_time s < simulation_time")
    case True
    with "1.prems" have "I (iteration rnd s)" by simp
    with "1.IH" [OF True] "1.prems"(2) have "I (rms_loop rnd simulation_time (iteration rnd s))"
      by simp
    with True show ?thesis by (simp add: rms_loop.simps [of rnd simulation_time s])
  next
    case False
    with "1.prems"(1) show ?thesis by (simp add: rms_loop.simps [of rnd simulation_time s])
  qed
qed

lemma rms_loop_exit: "simulation_time \<le> current_time (rms_loop rnd simulation_time s)"
proof (induction rnd simulation_time s rule: rms_loop.induct)
  case (1 rnd simulation_time s)
  then show ?case
    by (cases "current_time s < simulation_time") (simp_all add: rms_loop.simps [of rnd simulation_time s])
qed

lemma rms_loop_iterates:
  "\<exists>n. rms_loop rnd simulation_time s = (iteration rnd ^^ n) s
       \<and> (\<forall>m<n. current_time ((iteration rnd ^^ m) s) < simulation_time)"
proof (induction rnd simulation_time s rule: rms_loop.induct)
  case (1 rnd simulation_time s)
  show ?case
  proof (cases "current_time s < simulation_time")
    case False
    then have "rms_loop rnd simulation_time s = (iteration rnd ^^ 0) s"
      by (simp add: rms_loop.simps [of rnd simulation_time s])
    then show ?thesis by blast
  next
    case True
    from "1.IH" [OF True] obtain n where
      run: "rms_loop rnd simulation_time (iteration rnd s) = (iteration rnd ^^ n) (iteration rnd s)"
      and before: "\<forall>m<n. current_time ((iteration rnd ^^ m) (iteration rnd s)) < simulation_time"
      by blast
    from run True have "rms_loop rnd simulation_time s = (iteration rnd ^^ Suc n) s"
      by (simp add: rms_loop.simps [of rnd simulation_time s] funpow_swap1)
    moreover have "\<forall>m<Suc n. current_time ((iteration rnd ^^ m) s) < simulation_time"
    proof (intro allI impI)
      fix m assume "m < Suc n"
      show "current_time ((iteration rnd ^^ m) s) < simulation_time"
      proof (cases m)
        case 0
        with True show ?thesis by simp
      next
        case (Suc m')
        with \<open>m < Suc n\<close> before show ?thesis by (simp add: funpow_swap1)
      qed
    qed
    ultimately show ?thesis by blast
  qed
qed


text \<open>
  C9. For every task set and horizon the loop terminates: the result is the state after
  some finite number \<open>n\<close> of iterations, every state before it has
  \<open>current_time < simulation_time\<close> (so the loop is left at the first state with
  \<open>current_time \<ge> simulation_time\<close> and nowhere else), and every iteration advances
  \<open>current_time\<close> by at least 1, since \<open>AdvanceTime\<close> returns 1 when the active list is
  not empty, the strictly positive distance to the earliest future release when it is
  empty and there is one, and 1 otherwise.
\<close>

theorem loop_terminates_at_horizon:
  "(\<exists>n. rate_monotonic_scheduling rnd k ts simulation_time = (iteration rnd ^^ n) (sched_init k ts)
        \<and> (\<forall>m<n. current_time ((iteration rnd ^^ m) (sched_init k ts)) < simulation_time))
   \<and> simulation_time \<le> current_time (rate_monotonic_scheduling rnd k ts simulation_time)
   \<and> current_time s + 1 \<le> current_time (iteration rnd s)
   \<and> (act \<noteq> [] \<longrightarrow> AdvanceTime ct ts' d act = 1)
   \<and> (act = [] \<and> filter (\<lambda>t. ct < t) (map snd d) \<noteq> [] \<longrightarrow>
        AdvanceTime ct ts' d act = min_list (filter (\<lambda>t. ct < t) (map snd d)) - ct
        \<and> 0 < min_list (filter (\<lambda>t. ct < t) (map snd d)) - ct)
   \<and> (act = [] \<and> filter (\<lambda>t. ct < t) (map snd d) = [] \<longrightarrow> AdvanceTime ct ts' d act = 1)"
proof -
  have adv: "0 < min_list (filter (\<lambda>t. ct < t) (map snd d)) - ct"
    if "filter (\<lambda>t. ct < t) (map snd d) \<noteq> []"
    using min_list_filter_greater [OF that] by simp
  from iteration_advances [of s rnd] have step: "current_time s + 1 \<le> current_time (iteration rnd s)"
    by simp
  from rms_loop_iterates [of rnd simulation_time "sched_init k ts"]
    rms_loop_exit [of simulation_time rnd "sched_init k ts"] step adv
  show ?thesis
    by (simp add: rate_monotonic_scheduling_def AdvanceTime_def Let_def del: filter_map)
qed

theorem loop_terminates_at_horizon_witness:
  "rate_monotonic_scheduling no_draws 0 [fst (Task_init no_draws 0 ''T'' 1 1 10 10 1)] 10
     = (iteration no_draws ^^ 1) (sched_init 0 [fst (Task_init no_draws 0 ''T'' 1 1 10 10 1)])
   \<and> current_time (sched_init 0 [fst (Task_init no_draws 0 ''T'' 1 1 10 10 1)]) < 10
   \<and> 10 \<le> current_time
        (rate_monotonic_scheduling no_draws 0 [fst (Task_init no_draws 0 ''T'' 1 1 10 10 1)] 10)
   \<and> AdvanceTime 0 [] [(''T'', 10)] [0] = 1
   \<and> AdvanceTime 0 [] [(''T'', 10)] [] = 10
   \<and> AdvanceTime 10 [] [(''T'', 10)] [] = 1"
  using
    loop_terminates_at_horizon [where rnd = no_draws and k = 0 and simulation_time = 10
      and ts = "[fst (Task_init no_draws 0 ''T'' 1 1 10 10 1)]"
      and act = "[0]" and ct = 0 and d = "[(''T'', 10)]" and ts' = "[]"]
    loop_terminates_at_horizon [where rnd = no_draws and k = 0 and simulation_time = 10
      and ts = "[fst (Task_init no_draws 0 ''T'' 1 1 10 10 1)]"
      and act = "[]" and ct = 0 and d = "[(''T'', 10)]" and ts' = "[]"]
    loop_terminates_at_horizon [where rnd = no_draws and k = 0 and simulation_time = 10
      and ts = "[fst (Task_init no_draws 0 ''T'' 1 1 10 10 1)]"
      and act = "[]" and ct = 10 and d = "[(''T'', 10)]" and ts' = "[]"]
  by (simp add: sched_eval rms_loop.simps)


subsection \<open>Dispatch\<close>

lemma schedule_log_release_one [simp]: "schedule_log (release_one rnd i s) = schedule_log s"
  by (simp add: release_one_def Let_def case_prod_beta)

lemma schedule_log_release_step [simp]: "schedule_log (release_step rnd s) = schedule_log s"
  by (rule release_step_induct [where P = "\<lambda>s'. schedule_log s' = schedule_log s"]) simp_all

lemma schedule_log_advance [simp]: "schedule_log (advance s) = schedule_log s"
  by (simp add: advance_def)

lemma printed_advance [simp]: "printed (advance s) = printed s"
  by (simp add: advance_def)

lemma task_id_execute [simp]: "task_id (fst (execute t u)) = task_id t"
  by (simp add: execute_def Let_def)

lemma sort_key_hd:
  assumes "xs \<noteq> []"
  shows "hd (sort_key f xs) \<in> set xs"
    and "\<forall>i \<in> set xs. f (hd (sort_key f xs)) \<le> f i"
    and "hd (filter (\<lambda>i. f i = f (hd (sort_key f xs))) xs) = hd (sort_key f xs)"
proof -
  from assms have "sort_key f xs \<noteq> []"
    by (metis length_sort length_0_conv)
  then obtain j rest where eq: "sort_key f xs = j # rest"
    by (cases "sort_key f xs") auto
  have "set (sort_key f xs) = set xs" by simp
  with eq have mem: "set xs = insert j (set rest)" by simp
  then show "hd (sort_key f xs) \<in> set xs" using eq by simp
  have "sorted (map f (sort_key f xs))" by (rule sorted_sort_key)
  with eq have "\<forall>y \<in> set rest. f j \<le> f y" by simp
  with mem eq show "\<forall>i \<in> set xs. f (hd (sort_key f xs)) \<le> f i" by simp
  have "filter (\<lambda>i. f i = f j) xs = filter (\<lambda>i. f i = f j) (sort_key f xs)"
    by (rule sort_key_stable [symmetric])
  with eq show "hd (filter (\<lambda>i. f i = f (hd (sort_key f xs))) xs) = hd (sort_key f xs)"
    by simp
qed





subsection \<open>Closed forms of the dispatch and release steps\<close>

text \<open>Whether the dispatched job finishes in this tick, and the task object after it.\<close>

definition finished_tick :: "sched \<Rightarrow> bool" where
  "finished_tick s = snd (execute (tasks s ! current_job s) 1)"

definition job_after_tick :: "sched \<Rightarrow> Task" where
  "job_after_tick s =
     (if finished_tick s
      then calculate_response_time (fst (execute (tasks s ! current_job s) 1)) (current_time s + 1)
      else fst (execute (tasks s ! current_job s) 1))"

lemma sort_key_active_Cons:
  assumes "active_jobs s \<noteq> []"
  shows "sort_key (\<lambda>i. priority (tasks s ! i)) (active_jobs s) =
           current_job s # tl (sort_key (\<lambda>i. priority (tasks s ! i)) (active_jobs s))"
proof -
  from assms have "sort_key (\<lambda>i. priority (tasks s ! i)) (active_jobs s) \<noteq> []"
    by (metis length_sort length_0_conv)
  then show ?thesis by (simp add: current_job_def)
qed

lemma dispatch_idle:
  assumes "active_jobs s = []"
  shows "dispatch s = s\<lparr>active_jobs := [], schedule_log := schedule_log s @ [(current_time s, ''Idle'')]\<rparr>"
  using assms by (simp add: dispatch_def)

lemma dispatch_Cons:
  assumes "sort_key (\<lambda>i. priority (tasks s ! i)) (active_jobs s) = j # rest"
  shows "dispatch s =
     s\<lparr>tasks := (tasks s)[j :=
         (if snd (execute (tasks s ! j) 1)
          then calculate_response_time (fst (execute (tasks s ! j) 1)) (current_time s + 1)
          else fst (execute (tasks s ! j) 1))],
       active_jobs := (if snd (execute (tasks s ! j) 1) then rest else j # rest),
       schedule_log := schedule_log s @ [(current_time s, task_id (tasks s ! j))],
       printed := printed s @
         (Ran (current_time s) (task_id (tasks s ! j))
            (remaining_time (fst (execute (tasks s ! j) 1))) #
          (if snd (execute (tasks s ! j) 1)
           then [Completed (current_time s + 1) (task_id (tasks s ! j))
                   (Some (current_time s + 1 - release_time (tasks s ! j)))]
           else []))\<rparr>"
  by (simp add: dispatch_def assms Let_def case_prod_beta calculate_response_time_def
        execute_def)

lemma dispatch_run:
  assumes "active_jobs s \<noteq> []"
  shows "dispatch s =
     s\<lparr>tasks := (tasks s)[current_job s := job_after_tick s],
       active_jobs :=
         (if finished_tick s
          then tl (sort_key (\<lambda>i. priority (tasks s ! i)) (active_jobs s))
          else sort_key (\<lambda>i. priority (tasks s ! i)) (active_jobs s)),
       schedule_log := schedule_log s @ [(current_time s, task_id (tasks s ! current_job s))],
       printed := printed s @
         (Ran (current_time s) (task_id (tasks s ! current_job s))
            (remaining_time (fst (execute (tasks s ! current_job s) 1))) #
          (if finished_tick s
           then [Completed (current_time s + 1) (task_id (tasks s ! current_job s))
                   (Some (current_time s + 1 - release_time (tasks s ! current_job s)))]
           else []))\<rparr>"
proof -
  note eq = sort_key_active_Cons [OF assms]
  from dispatch_Cons [OF eq] eq [symmetric] show ?thesis
    by (simp add: finished_tick_def job_after_tick_def)
qed

section \<open>Remaining time\<close>

lemma generate_execution_time_pos: "1 \<le> fst (generate_execution_time rnd k b w)"
  by (simp add: generate_execution_time_def)

lemma release_new_job_fields:
  "fst (release_new_job rnd k t ct) =
     t\<lparr>release_time := ct,
       execution_time := fst (generate_execution_time rnd k (bcet t) (wcet t)),
       remaining_time := fst (generate_execution_time rnd k (bcet t) (wcet t)),
       completion_time := None, response_time := None\<rparr>"
  and "snd (release_new_job rnd k t ct) = snd (generate_execution_time rnd k (bcet t) (wcet t))"
  by (simp_all add: release_new_job_def case_prod_beta)

lemma release_one_unfold:
  "release_one rnd i s =
     (if current_time s = jrt_get (job_release_times s) (task_id (tasks s ! i)) then
        s\<lparr>tasks := (tasks s)[i := fst (release_new_job rnd (rng s) (tasks s ! i) (current_time s))],
          active_jobs := active_jobs s @ [i],
          job_release_times :=
            AList.update (task_id (tasks s ! i)) (current_time s + period (tasks s ! i))
              (job_release_times s),
          printed := printed s @
            [Released (current_time s) (task_id (tasks s ! i))
               (fst (generate_execution_time rnd (rng s) (bcet (tasks s ! i)) (wcet (tasks s ! i))))],
          rng := snd (generate_execution_time rnd (rng s) (bcet (tasks s ! i)) (wcet (tasks s ! i)))\<rparr>
      else s)"
  by (simp add: release_one_def Let_def case_prod_beta release_new_job_def)

lemma set_update_pred:
  assumes "\<forall>t \<in> set xs. P t" and "P x"
  shows "\<forall>t \<in> set (xs[i := x]). P t"
  using assms set_update_subset_insert [of xs i x] by auto

lemma remaining_time_release_one:
  assumes "\<forall>t \<in> set (tasks s). 0 \<le> remaining_time t"
  shows "\<forall>t \<in> set (tasks (release_one rnd i s)). 0 \<le> remaining_time t"
proof (cases "current_time s = jrt_get (job_release_times s) (task_id (tasks s ! i))")
  case False
  with assms show ?thesis by (simp add: release_one_unfold)
next
  case True
  have "0 \<le> remaining_time (fst (release_new_job rnd (rng s) (tasks s ! i) (current_time s)))"
    using generate_execution_time_pos [of rnd "rng s" "bcet (tasks s ! i)" "wcet (tasks s ! i)"]
    by (simp add: release_new_job_fields)
  from set_update_pred [of "tasks s" "\<lambda>t. 0 \<le> remaining_time t", OF assms this] True
  show ?thesis by (simp add: release_one_unfold)
qed

lemma remaining_time_release_loop:
  assumes "\<forall>t \<in> set (tasks s). 0 \<le> remaining_time t"
  shows "\<forall>t \<in> set (tasks (fold (release_one rnd) js s)). 0 \<le> remaining_time t"
  using assms
proof (induction js arbitrary: s)
  case Nil
  then show ?case by simp
next
  case (Cons i js)
  from Cons.IH [OF remaining_time_release_one [OF Cons.prems]] show ?case by simp
qed

lemma remaining_time_job_after_tick: "0 \<le> remaining_time (job_after_tick s)"
  by (simp add: job_after_tick_def calculate_response_time_def execute_def Let_def)

lemma remaining_time_dispatch:
  assumes "\<forall>t \<in> set (tasks s). 0 \<le> remaining_time t"
  shows "\<forall>t \<in> set (tasks (dispatch s)). 0 \<le> remaining_time t"
proof (cases "active_jobs s = []")
  case True
  with assms show ?thesis by (simp add: dispatch_idle)
next
  case False
  from set_update_pred [of "tasks s" "\<lambda>t. 0 \<le> remaining_time t", OF assms remaining_time_job_after_tick]
  show ?thesis by (simp add: dispatch_run [OF False])
qed

lemma remaining_time_iteration:
  assumes "\<forall>t \<in> set (tasks s). 0 \<le> remaining_time t"
  shows "\<forall>t \<in> set (tasks (iteration rnd s)). 0 \<le> remaining_time t"
proof -
  from remaining_time_release_loop [OF assms]
  have "\<forall>t \<in> set (tasks (release_step rnd s)). 0 \<le> remaining_time t"
    by (simp add: release_step_def)
  from remaining_time_dispatch [OF this] show ?thesis
    by (simp add: iteration_def advance_def)
qed

lemma remaining_time_iterates:
  assumes "\<forall>t \<in> set (tasks s). 0 \<le> remaining_time t"
  shows "\<forall>t \<in> set (tasks ((iteration rnd ^^ n) s)). 0 \<le> remaining_time t"
proof (induction n)
  case 0
  from assms show ?case by simp
next
  case (Suc n)
  from remaining_time_iteration [OF Suc] show ?case by simp
qed


text \<open>
  C6. Starting from tasks whose \<open>remaining_time\<close> is not negative (as \<open>Task.__init__\<close>
  makes them), every task has \<open>remaining_time \<ge> 0\<close> in every state of the run: at the
  head of every loop iteration, after any number of passes of the release loop, after
  the dispatch step, and in the final state. And \<open>execute(units)\<close> sets
  \<open>remaining_time\<close> to \<open>max(0, remaining_time - units)\<close> and returns true exactly when
  the new value is 0.
\<close>

theorem remaining_time_never_negative:
  assumes "\<forall>t \<in> set ts. 0 \<le> remaining_time t"
  shows "(\<forall>t \<in> set (tasks ((iteration rnd ^^ n) (sched_init k ts))). 0 \<le> remaining_time t)
       \<and> (\<forall>t \<in> set (tasks (fold (release_one rnd) js ((iteration rnd ^^ n) (sched_init k ts)))).
            0 \<le> remaining_time t)
       \<and> (\<forall>t \<in> set (tasks (dispatch (release_step rnd ((iteration rnd ^^ n) (sched_init k ts))))).
            0 \<le> remaining_time t)
       \<and> (\<forall>t \<in> set (tasks (rate_monotonic_scheduling rnd k ts simulation_time)).
            0 \<le> remaining_time t)
       \<and> remaining_time (fst (execute t u)) = max 0 (remaining_time t - u)
       \<and> snd (execute t u) = (remaining_time (fst (execute t u)) = 0)
       \<and> 0 \<le> remaining_time (fst (execute t u))"
proof -
  from assms have init: "\<forall>t \<in> set (tasks (sched_init k ts)). 0 \<le> remaining_time t"
    by (simp add: sched_init_def)
  note reach = remaining_time_iterates [OF init, where rnd = rnd and n = n]
  note rel = remaining_time_release_loop [OF reach, where rnd = rnd]
  from rel [where js = "[0..<length (tasks ((iteration rnd ^^ n) (sched_init k ts)))]"]
  have "\<forall>t \<in> set (tasks (release_step rnd ((iteration rnd ^^ n) (sched_init k ts)))).
          0 \<le> remaining_time t"
    by (simp add: release_step_def)
  note disp = remaining_time_dispatch [OF this]
  from rms_loop_iterates [of rnd simulation_time "sched_init k ts"] obtain m where
    "rate_monotonic_scheduling rnd k ts simulation_time = (iteration rnd ^^ m) (sched_init k ts)"
    by (auto simp: rate_monotonic_scheduling_def)
  with remaining_time_iterates [OF init, where rnd = rnd and n = m]
  have fin: "\<forall>t \<in> set (tasks (rate_monotonic_scheduling rnd k ts simulation_time)).
          0 \<le> remaining_time t"
    by simp
  have ex: "remaining_time (fst (execute t u)) = max 0 (remaining_time t - u)
       \<and> snd (execute t u) = (remaining_time (fst (execute t u)) = 0)
       \<and> 0 \<le> remaining_time (fst (execute t u))"
    by (simp add: execute_def Let_def)
  from reach rel [where js = js] disp fin ex show ?thesis by blast
qed

theorem remaining_time_never_negative_witness:
  "map remaining_time
     [fst (Task_init no_draws 0 ''A'' 1 1 4 4 1), fst (Task_init no_draws 0 ''B'' 2 2 6 6 2)]
     = [1, 2]
   \<and> map remaining_time (tasks ((iteration no_draws ^^ 2)
        (sched_init 0 [fst (Task_init no_draws 0 ''A'' 1 1 4 4 1),
                       fst (Task_init no_draws 0 ''B'' 2 2 6 6 2)]))) = [0, 1]
   \<and> 0 \<le> remaining_time (hd (tasks ((iteration no_draws ^^ 2)
        (sched_init 0 [fst (Task_init no_draws 0 ''A'' 1 1 4 4 1),
                       fst (Task_init no_draws 0 ''B'' 2 2 6 6 2)]))))"
proof -
  let ?ts = "[fst (Task_init no_draws 0 ''A'' 1 1 4 4 1), fst (Task_init no_draws 0 ''B'' 2 2 6 6 2)]"
  have start: "map remaining_time ?ts = [1, 2]"
    by (simp add: Task_init_def generate_execution_time_def)
  then have pre: "\<forall>t \<in> set ?ts. 0 \<le> remaining_time t"
    by simp
  have run: "map remaining_time (tasks ((iteration no_draws ^^ 2) (sched_init 0 ?ts))) = [0, 1]"
    by (simp add: sched_eval numeral_2_eq_2)
  then have "tasks ((iteration no_draws ^^ 2) (sched_init 0 ?ts)) \<noteq> []"
    by auto
  then have "hd (tasks ((iteration no_draws ^^ 2) (sched_init 0 ?ts)))
      \<in> set (tasks ((iteration no_draws ^^ 2) (sched_init 0 ?ts)))"
    by (rule hd_in_set)
  with remaining_time_never_negative [OF pre, where rnd = no_draws and n = 2 and k = 0]
  have "0 \<le> remaining_time (hd (tasks ((iteration no_draws ^^ 2) (sched_init 0 ?ts))))"
    by blast
  with start run show ?thesis by blast
qed

section \<open>Response times\<close>

subsection \<open>The references in the active list are valid and released\<close>

text \<open>
  The task ids in the store never change, and every entry of the active list is a
  position in the store whose task was released at or before the current time.
\<close>

definition refs_ok :: "Task list \<Rightarrow> sched \<Rightarrow> bool" where
  "refs_ok ts s \<longleftrightarrow>
     map task_id (tasks s) = map task_id ts
     \<and> (\<forall>i \<in> set (active_jobs s). i < length ts \<and> release_time (tasks s ! i) \<le> current_time s)"

lemma nth_list_update_total:
  "(xs[j := y]) ! i = (if i = j \<and> j < length xs then y else xs ! i)"
  by (cases "j < length xs") (auto simp: nth_list_update list_update_beyond)

lemma refs_ok_length: "refs_ok ts s \<Longrightarrow> length (tasks s) = length ts"
  unfolding refs_ok_def by (metis length_map)

lemma refs_ok_task_id:
  assumes "refs_ok ts s" and "i < length ts"
  shows "task_id (tasks s ! i) = task_id (ts ! i)"
proof -
  from assms have "map task_id (tasks s) ! i = map task_id ts ! i"
    by (simp add: refs_ok_def)
  with assms refs_ok_length [OF assms(1)] show ?thesis by simp
qed

lemma map_task_id_update:
  assumes "task_id y = task_id (xs ! j)"
  shows "map task_id (xs[j := y]) = map task_id xs"
proof (cases "j < length xs")
  case True
  with assms show ?thesis by (simp add: map_update list_update_same_conv)
next
  case False
  then show ?thesis by (simp add: list_update_beyond)
qed

lemma task_id_release_new_job [simp]: "task_id (fst (release_new_job rnd k t ct)) = task_id t"
  by (simp add: release_new_job_fields)

lemma release_time_release_new_job [simp]: "release_time (fst (release_new_job rnd k t ct)) = ct"
  by (simp add: release_new_job_fields)

lemma task_id_job_after_tick [simp]: "task_id (job_after_tick s) = task_id (tasks s ! current_job s)"
  by (simp add: job_after_tick_def calculate_response_time_def execute_def Let_def)

lemma release_time_job_after_tick [simp]:
  "release_time (job_after_tick s) = release_time (tasks s ! current_job s)"
  by (simp add: job_after_tick_def calculate_response_time_def execute_def Let_def)

lemma refs_ok_release_one:
  assumes "refs_ok ts s" and "i < length ts"
  shows "refs_ok ts (release_one rnd i s)"
proof (cases "current_time s = jrt_get (job_release_times s) (task_id (tasks s ! i))")
  case False
  with assms show ?thesis by (simp add: release_one_unfold)
next
  case True
  from assms have len: "i < length (tasks s)" by (simp add: refs_ok_length)
  from assms(1) have ids: "map task_id (tasks s) = map task_id ts"
    and act: "\<forall>j \<in> set (active_jobs s). j < length ts \<and> release_time (tasks s ! j) \<le> current_time s"
    by (simp_all add: refs_ok_def)
  from ids have "map task_id ((tasks s)[i := fst (release_new_job rnd (rng s) (tasks s ! i) (current_time s))])
      = map task_id ts"
    by (simp add: map_task_id_update)
  moreover from act assms(2) len
  have "\<forall>j \<in> set (active_jobs s @ [i]). j < length ts \<and>
      release_time ((tasks s)[i := fst (release_new_job rnd (rng s) (tasks s ! i) (current_time s))] ! j)
        \<le> current_time s"
    by (simp add: nth_list_update_total)
  ultimately show ?thesis using True
    by (simp add: release_one_unfold refs_ok_def)
qed


lemma current_job_active:
  assumes "active_jobs s \<noteq> []"
  shows "current_job s \<in> set (active_jobs s)"
  using sort_key_hd(1) [OF assms] by (simp add: current_job_def)

lemma set_sorted_active_tl:
  "set (tl (sort_key f xs)) \<subseteq> set xs"
proof -
  have "set (tl (sort_key f xs)) \<subseteq> set (sort_key f xs)"
    by (cases "sort_key f xs") auto
  then show ?thesis by simp
qed

lemma refs_ok_dispatch:
  assumes "refs_ok ts s"
  shows "refs_ok ts (dispatch s)"
proof (cases "active_jobs s = []")
  case True
  with assms show ?thesis by (simp add: dispatch_idle refs_ok_def)
next
  case False
  from assms have ids: "map task_id (tasks s) = map task_id ts"
    and act: "\<forall>j \<in> set (active_jobs s). j < length ts \<and> release_time (tasks s ! j) \<le> current_time s"
    by (simp_all add: refs_ok_def)
  from ids have ids': "map task_id ((tasks s)[current_job s := job_after_tick s]) = map task_id ts"
    by (simp add: map_task_id_update)
  from act have rel: "\<forall>j \<in> set (active_jobs s). j < length ts \<and>
      release_time ((tasks s)[current_job s := job_after_tick s] ! j) \<le> current_time s"
    by (simp add: nth_list_update_total)
  with set_sorted_active_tl [of "\<lambda>i. priority (tasks s ! i)" "active_jobs s"]
  have "\<forall>j \<in> set (tl (sort_key (\<lambda>i. priority (tasks s ! i)) (active_jobs s))). j < length ts \<and>
      release_time ((tasks s)[current_job s := job_after_tick s] ! j) \<le> current_time s"
    by blast
  with ids' rel show ?thesis
    by (simp add: dispatch_run [OF False] refs_ok_def)
qed

lemma refs_ok_advance:
  assumes "refs_ok ts s"
  shows "refs_ok ts (advance s)"
proof -
  from AdvanceTime_pos [of "current_time s" "tasks s" "job_release_times s" "active_jobs s"]
  have "current_time s \<le> current_time (advance s)" by (simp add: advance_def)
  moreover have "tasks (advance s) = tasks s" "active_jobs (advance s) = active_jobs s"
    by (simp_all add: advance_def)
  ultimately show ?thesis using assms unfolding refs_ok_def by fastforce
qed


lemma refs_ok_init: "refs_ok ts (sched_init k ts)"
  by (simp add: refs_ok_def sched_init_def)

subsection \<open>Completions and the running maximum\<close>

text \<open>
  The response times printed at the completions of the task with a given id, in order;
  \<open>completions_ok\<close>: every completion printed carries a response time of at least 1;
  \<open>wcrt_ok\<close>: each task's \<open>wcrt\<close> is the running maximum over its initial value and the
  response times printed so far for its id.
\<close>

fun response_of :: "string \<Rightarrow> event \<Rightarrow> int list" where
  "response_of tid (Completed t i (Some r)) = (if i = tid then [r] else [])"
| "response_of tid e = []"

definition responses :: "event list \<Rightarrow> string \<Rightarrow> int list" where
  "responses es tid = concat (map (response_of tid) es)"



lemma responses_append [simp]: "responses (es @ es') tid = responses es tid @ responses es' tid"
  by (simp add: responses_def)

lemma responses_Nil [simp]: "responses [] tid = []"
  by (simp add: responses_def)

lemma responses_Cons [simp]: "responses (e # es) tid = response_of tid e @ responses es tid"
  by (simp add: responses_def)


















lemma wcrt_release_one [simp]: "wcrt (tasks (release_one rnd i s) ! j) = wcrt (tasks s ! j)"
  by (simp add: release_one_unfold nth_list_update_total release_new_job_fields)

lemma wcrt_release_step [simp]: "wcrt (tasks (release_step rnd s) ! j) = wcrt (tasks s ! j)"
  by (rule release_step_induct [where P = "\<lambda>s'. wcrt (tasks s' ! j) = wcrt (tasks s ! j)"])
     simp_all





text \<open>The two tasks of the scenario of C1, with deadlines equal to the periods.\<close>

definition scenario_tasks :: "Task list" where
  "scenario_tasks =
     [fst (Task_init no_draws 0 ''A'' 1 1 4 4 1), fst (Task_init no_draws 0 ''B'' 2 2 6 6 2)]"




subsection \<open>A task released again while its job is still active\<close>

text \<open>
  The release step appends the task to the active list whether or not it is already
  there. With period 3 and execution times 4 and then 1, the job released at 0 is still
  active at 3: the task object is reset by the second release and the active list then
  holds two references to it. The first is completed at 4; the second is dispatched at
  tick 4 with no remaining time and completed at once, at 5. Both completions are calls
  of \<open>calculate_response_time\<close> on the job released at 3, and \<open>wcrt\<close> is the maximum over
  both.
\<close>

definition overrun_draws :: "nat \<Rightarrow> real" where
  "overrun_draws k = (if k = 0 then 4 else 1)"

lemma overrun_run:
  "printed (rate_monotonic_scheduling overrun_draws 0
       [fst (Task_init no_draws 0 ''T'' 1 4 3 3 1)] 6)
     = [Released 0 ''T'' 4, Ran 0 ''T'' 3, Ran 1 ''T'' 2, Ran 2 ''T'' 1,
        Released 3 ''T'' 1, Ran 3 ''T'' 0, Completed 4 ''T'' (Some 1),
        Ran 4 ''T'' 0, Completed 5 ''T'' (Some 2)]
   \<and> wcrt_report (rate_monotonic_scheduling overrun_draws 0
       [fst (Task_init no_draws 0 ''T'' 1 4 3 3 1)] 6) = [(''T'', 2)]
   \<and> schedule_log (rate_monotonic_scheduling overrun_draws 0
       [fst (Task_init no_draws 0 ''T'' 1 4 3 3 1)] 6)
     = [(0, ''T''), (1, ''T''), (2, ''T''), (3, ''T''), (4, ''T'')]"
  by (simp add: sched_eval rms_loop.simps overrun_draws_def no_draws_def py_round_def)

section \<open>Idle entries\<close>

text \<open>
  \<open>jrt_ok\<close>: the dictionary of release times has one entry per task id, no entry lies
  before the current time, the periods in the store are those of the task set, and the
  log has no idle entry. \<open>released_upto ts m\<close>: moreover the first \<open>m\<close> tasks have their
  next release after the current time, and either a job is active or one of the
  remaining tasks is due now.
\<close>

definition jrt_ok :: "Task list \<Rightarrow> sched \<Rightarrow> bool" where
  "jrt_ok ts s \<longleftrightarrow>
     distinct (map fst (job_release_times s))
     \<and> fst ` set (job_release_times s) = task_id ` set ts
     \<and> map period (tasks s) = map period ts
     \<and> (\<forall>e \<in> set (schedule_log s). snd e \<noteq> ''Idle'')
     \<and> (\<forall>v \<in> snd ` set (job_release_times s). current_time s \<le> v)"

definition released_upto :: "Task list \<Rightarrow> nat \<Rightarrow> sched \<Rightarrow> bool" where
  "released_upto ts m s \<longleftrightarrow>
     refs_ok ts s \<and> jrt_ok ts s
     \<and> (\<forall>i<m. i < length ts \<longrightarrow>
           current_time s < jrt_get (job_release_times s) (task_id (ts ! i)))
     \<and> (active_jobs s \<noteq> [] \<or>
          (\<exists>i. m \<le> i \<and> i < length ts
             \<and> jrt_get (job_release_times s) (task_id (ts ! i)) = current_time s))"

lemma jrt_get_in:
  assumes "distinct (map fst al)" and "(k, v) \<in> set al"
  shows "jrt_get al k = v"
  using assms by (simp add: jrt_get_def)

lemma jrt_get_mem:
  assumes "k \<in> fst ` set al"
  shows "(k, jrt_get al k) \<in> set al"
proof -
  from assms obtain v where "map_of al k = Some v"
    by (metis domD dom_map_of_conv_image_fst)
  then show ?thesis by (simp add: jrt_get_def map_of_SomeD)
qed

lemma jrt_get_update: "jrt_get (AList.update k v al) k' = (if k' = k then v else jrt_get al k')"
  by (simp add: jrt_get_def update_conv')

lemma set_update_subset: "set (AList.update k v al) \<subseteq> insert (k, v) (set al)"
  by (induction al) auto

lemma init_jrt_distinct:
  "distinct (map fst acc) \<Longrightarrow>
     distinct (map fst (fold (\<lambda>t. AList.update (task_id t) 0) ts acc))"
  by (induction ts arbitrary: acc) (simp_all add: distinct_update)

lemma init_jrt_keys:
  "fst ` set (fold (\<lambda>t. AList.update (task_id t) 0) ts acc) = fst ` set acc \<union> task_id ` set ts"
proof (induction ts arbitrary: acc)
  case Nil
  show ?case by simp
next
  case (Cons t ts)
  show ?case by (auto simp: Cons.IH dom_update)
qed

lemma init_jrt_values:
  "\<forall>v \<in> snd ` set acc. v = (0::int) \<Longrightarrow>
     \<forall>v \<in> snd ` set (fold (\<lambda>t. AList.update (task_id t) 0) ts acc). v = 0"
proof (induction ts arbitrary: acc)
  case Nil
  then show ?case by simp
next
  case (Cons t ts)
  from Cons.prems set_update_subset [of "task_id t" 0 acc]
  have "\<forall>v \<in> snd ` set (AList.update (task_id t) 0 acc). v = 0" by fastforce
  from Cons.IH [OF this] show ?case by simp
qed

lemma released_upto_init:
  assumes "ts \<noteq> []"
  shows "released_upto ts 0 (sched_init k ts)"
proof -
  let ?d = "fold (\<lambda>t. AList.update (task_id t) (0::int)) ts []"
  have d1: "distinct (map fst ?d)" by (rule init_jrt_distinct) simp
  have d2: "fst ` set ?d = task_id ` set ts" by (simp add: init_jrt_keys)
  have d3: "\<forall>v \<in> snd ` set ?d. v = 0"
    using init_jrt_values [of "[]" ts] by simp
  from assms have "task_id (ts ! 0) \<in> fst ` set ?d" by (simp add: d2)
  from jrt_get_mem [OF this] d3 have "jrt_get ?d (task_id (ts ! 0)) = 0" by force
  with assms have d4: "\<exists>i. 0 \<le> i \<and> i < length ts \<and> jrt_get ?d (task_id (ts ! i)) = 0"
    by (intro exI [of _ 0]) simp
  have st: "job_release_times (sched_init k ts) = ?d" "current_time (sched_init k ts) = 0"
    "tasks (sched_init k ts) = ts" "schedule_log (sched_init k ts) = []"
    by (simp_all add: sched_init_def)
  from d1 d2 d3 d4 refs_ok_init [of ts k] show ?thesis
    unfolding released_upto_def jrt_ok_def st by simp
qed

lemma map_update_same:
  assumes "f y = f (xs ! j)"
  shows "map f (xs[j := y]) = map f xs"
proof (cases "j < length xs")
  case True
  with assms show ?thesis by (simp add: map_update list_update_same_conv)
next
  case False
  then show ?thesis by (simp add: list_update_beyond)
qed

lemma period_nth:
  assumes "map period (tasks s) = map period ts" and "i < length ts"
  shows "period (tasks s ! i) = period (ts ! i)"
proof -
  from assms(1) have len: "length (tasks s) = length ts" by (metis length_map)
  with assms(2) have "period (tasks s ! i) = map period (tasks s) ! i" by simp
  also have "\<dots> = map period ts ! i" by (simp only: assms(1))
  also from assms(2) have "\<dots> = period (ts ! i)" by simp
  finally show ?thesis .
qed

lemma jrt_value_bound:
  assumes "jrt_ok ts s" and "i < length ts"
  shows "current_time s \<le> jrt_get (job_release_times s) (task_id (ts ! i))"
proof -
  from assms have "task_id (ts ! i) \<in> fst ` set (job_release_times s)"
    by (simp add: jrt_ok_def)
  from jrt_get_mem [OF this]
  have "jrt_get (job_release_times s) (task_id (ts ! i)) \<in> snd ` set (job_release_times s)"
    by force
  with assms(1) show ?thesis by (auto simp: jrt_ok_def)
qed

lemma released_upto_release_one:
  assumes inv: "released_upto ts m s" and m: "m < length ts"
    and pos: "\<forall>t \<in> set ts. 0 < period t"
  shows "released_upto ts (Suc m) (release_one rnd m s)"
proof -
  from inv have refs: "refs_ok ts s" and ok: "jrt_ok ts s"
    and past: "\<forall>i<m. i < length ts \<longrightarrow>
           current_time s < jrt_get (job_release_times s) (task_id (ts ! i))"
    and todo: "active_jobs s \<noteq> [] \<or>
          (\<exists>i. m \<le> i \<and> i < length ts
             \<and> jrt_get (job_release_times s) (task_id (ts ! i)) = current_time s)"
    by (simp_all add: released_upto_def)
  from refs_ok_task_id [OF refs m] have id: "task_id (tasks s ! m) = task_id (ts ! m)" .
  from ok have per: "map period (tasks s) = map period ts" by (simp add: jrt_ok_def)
  from period_nth [OF per m] pos m have p: "0 < period (tasks s ! m)" by simp
  show ?thesis
  proof (cases "current_time s = jrt_get (job_release_times s) (task_id (tasks s ! m))")
    case False
    with id jrt_value_bound [OF ok m]
    have now: "current_time s < jrt_get (job_release_times s) (task_id (ts ! m))" by simp
    have past': "\<forall>i<Suc m. i < length ts \<longrightarrow>
           current_time s < jrt_get (job_release_times s) (task_id (ts ! i))"
    proof (intro allI impI)
      fix i assume "i < Suc m" and "i < length ts"
      with past now show "current_time s < jrt_get (job_release_times s) (task_id (ts ! i))"
        by (cases "i = m") simp_all
    qed
    have todo': "active_jobs s \<noteq> [] \<or>
          (\<exists>i. Suc m \<le> i \<and> i < length ts
             \<and> jrt_get (job_release_times s) (task_id (ts ! i)) = current_time s)"
    proof (cases "active_jobs s = []")
      case True
      with todo obtain i where i: "m \<le> i" "i < length ts"
        "jrt_get (job_release_times s) (task_id (ts ! i)) = current_time s"
        by blast
      with now have "i \<noteq> m" by auto
      with i have "Suc m \<le> i" by simp
      with i show ?thesis by blast
    qed simp
    from False refs ok past' todo' show ?thesis
      by (simp add: release_one_unfold released_upto_def)
  next
    case True
    let ?k = "task_id (tasks s ! m)"
    let ?v = "current_time s + period (tasks s ! m)"
    let ?d = "AList.update ?k ?v (job_release_times s)"
    let ?t = "fst (release_new_job rnd (rng s) (tasks s ! m) (current_time s))"
    have st: "tasks (release_one rnd m s) = (tasks s)[m := ?t]"
      "active_jobs (release_one rnd m s) = active_jobs s @ [m]"
      "job_release_times (release_one rnd m s) = ?d"
      "schedule_log (release_one rnd m s) = schedule_log s"
      "current_time (release_one rnd m s) = current_time s"
      using True by (simp_all add: release_one_unfold)
    have refs': "refs_ok ts (release_one rnd m s)"
      by (rule refs_ok_release_one [OF refs m])
    from ok have "distinct (map fst (job_release_times s))" by (simp add: jrt_ok_def)
    then have k1: "distinct (map fst ?d)" by (rule distinct_update)
    from ok m id have k2: "fst ` set ?d = task_id ` set ts"
      by (auto simp: jrt_ok_def dom_update)
    have k3: "map period ((tasks s)[m := ?t]) = map period ts"
      using per by (simp add: map_update_same release_new_job_fields)
    from ok have k4: "\<forall>e \<in> set (schedule_log s). snd e \<noteq> ''Idle''" by (simp add: jrt_ok_def)
    have k5: "\<forall>v \<in> snd ` set ?d. current_time s \<le> v"
    proof
      fix v assume "v \<in> snd ` set ?d"
      with set_update_subset [of ?k ?v "job_release_times s"]
      have "v = ?v \<or> v \<in> snd ` set (job_release_times s)" by force
      with ok p show "current_time s \<le> v" by (auto simp: jrt_ok_def)
    qed
    have past': "\<forall>i<Suc m. i < length ts \<longrightarrow> current_time s < jrt_get ?d (task_id (ts ! i))"
    proof (intro allI impI)
      fix i assume i: "i < Suc m" "i < length ts"
      show "current_time s < jrt_get ?d (task_id (ts ! i))"
      proof (cases "task_id (ts ! i) = ?k")
        case True
        with p show ?thesis by (simp add: jrt_get_update)
      next
        case False
        with id have "i \<noteq> m" by auto
        with i past False show ?thesis by (simp add: jrt_get_update)
      qed
    qed
    from refs' k1 k2 k3 k4 k5 past' show ?thesis
      unfolding released_upto_def jrt_ok_def st by simp
  qed
qed

lemma released_upto_release_loop:
  assumes "released_upto ts 0 s" and "\<forall>t \<in> set ts. 0 < period t" and "m \<le> length ts"
  shows "released_upto ts m (fold (release_one rnd) [0..<m] s)"
  using assms(3)
proof (induction m)
  case 0
  from assms(1) show ?case by simp
next
  case (Suc m)
  then have "released_upto ts m (fold (release_one rnd) [0..<m] s)" and "m < length ts"
    by simp_all
  from released_upto_release_one [OF this assms(2)] show ?case by simp
qed

lemma released_upto_release_step:
  assumes "released_upto ts 0 s" and "\<forall>t \<in> set ts. 0 < period t"
  shows "released_upto ts (length ts) (release_step rnd s)"
proof -
  from assms(1) have "length (tasks s) = length ts"
    by (simp add: released_upto_def refs_ok_length)
  with released_upto_release_loop [OF assms, of "length ts" rnd] show ?thesis
    by (simp add: release_step_def)
qed

lemma period_job_after_tick [simp]: "period (job_after_tick s) = period (tasks s ! current_job s)"
  by (simp add: job_after_tick_def calculate_response_time_def execute_def Let_def)

lemma min_list_le:
  fixes xs :: "int list"
  assumes "x \<in> set xs"
  shows "min_list xs \<le> x"
proof -
  from assms have "xs \<noteq> []" by auto
  with assms show ?thesis by (simp add: min_list_Min)
qed

lemma key_is_task_id:
  assumes "jrt_ok ts s" and "(k, v) \<in> set (job_release_times s)"
  shows "\<exists>i<length ts. k = task_id (ts ! i) \<and> jrt_get (job_release_times s) k = v"
proof -
  from assms have "k \<in> task_id ` set ts" by (force simp: jrt_ok_def)
  then obtain i where "i < length ts" and "k = task_id (ts ! i)"
    by (auto simp: in_set_conv_nth)
  moreover from assms have "jrt_get (job_release_times s) k = v"
    by (simp add: jrt_ok_def jrt_get_in)
  ultimately show ?thesis by blast
qed

lemma released_upto_iteration:
  assumes inv: "released_upto ts 0 s" and ne: "ts \<noteq> []"
    and pos: "\<forall>t \<in> set ts. 0 < period t"
    and names: "\<forall>t \<in> set ts. task_id t \<noteq> ''Idle''"
  shows "released_upto ts 0 (iteration rnd s)"
proof -
  let ?s1 = "release_step rnd s"
  let ?j = "current_job ?s1"
  let ?s2 = "dispatch ?s1"
  let ?d = "job_release_times ?s1"
  let ?ct = "current_time ?s1"
  from released_upto_release_step [OF inv pos, of rnd]
  have refs1: "refs_ok ts ?s1" and ok1: "jrt_ok ts ?s1"
    and gt: "\<forall>i<length ts. ?ct < jrt_get ?d (task_id (ts ! i))"
    and act1: "active_jobs ?s1 \<noteq> []"
    by (auto simp: released_upto_def)
  have vals: "?ct < v" if "v \<in> snd ` set ?d" for v
  proof -
    from that obtain k where "(k, v) \<in> set ?d" by auto
    from key_is_task_id [OF ok1 this] gt show ?thesis by auto
  qed
  from refs1 current_job_active [OF act1] have j: "?j < length ts"
    by (simp add: refs_ok_def)
  from refs_ok_task_id [OF refs1 j] names j
  have name: "task_id (tasks ?s1 ! ?j) \<noteq> ''Idle''" by simp
  have st2: "job_release_times ?s2 = ?d" "current_time ?s2 = ?ct"
    "tasks ?s2 = (tasks ?s1)[?j := job_after_tick ?s1]"
    "schedule_log ?s2 = schedule_log ?s1 @ [(?ct, task_id (tasks ?s1 ! ?j))]"
    by (simp_all add: dispatch_run [OF act1])
  have refs2: "refs_ok ts ?s2" by (rule refs_ok_dispatch [OF refs1])
  from ok1 have per2: "map period (tasks ?s2) = map period ts"
    unfolding st2 by (simp add: jrt_ok_def map_update_same)
  from ok1 name have log2: "\<forall>e \<in> set (schedule_log ?s2). snd e \<noteq> ''Idle''"
    unfolding st2 by (simp add: jrt_ok_def)
  from ok1 have keys: "distinct (map fst ?d)" "fst ` set ?d = task_id ` set ts"
    by (simp_all add: jrt_ok_def)
  let ?s3 = "advance ?s2"
  have st3: "job_release_times ?s3 = ?d" "tasks ?s3 = tasks ?s2"
    "schedule_log ?s3 = schedule_log ?s2" "active_jobs ?s3 = active_jobs ?s2"
    "current_time ?s3 = ?ct + AdvanceTime ?ct (tasks ?s2) ?d (active_jobs ?s2)"
    by (simp_all add: advance_def st2)
  have refs3: "refs_ok ts ?s3" by (rule refs_ok_advance [OF refs2])
  have "(\<forall>v \<in> snd ` set ?d. current_time ?s3 \<le> v)
      \<and> (active_jobs ?s3 \<noteq> [] \<or>
          (\<exists>i. 0 \<le> i \<and> i < length ts \<and> jrt_get ?d (task_id (ts ! i)) = current_time ?s3))"
  proof (cases "active_jobs ?s2 = []")
    case False
    then have "current_time ?s3 = ?ct + 1" by (simp add: st3 AdvanceTime_def)
    with vals False show ?thesis by (force simp: st3)
  next
    case True
    from keys ne have "?d \<noteq> []" by auto
    from vals have all: "filter (\<lambda>t. ?ct < t) (map snd ?d) = map snd ?d"
      by (simp add: filter_id_conv del: filter_map)
    with True \<open>?d \<noteq> []\<close> have now: "current_time ?s3 = min_list (map snd ?d)"
      by (simp add: st3 AdvanceTime_def Let_def del: filter_map)
    from \<open>?d \<noteq> []\<close> have "min_list (map snd ?d) \<in> set (map snd ?d)"
      by (intro min_list_in_set) simp
    then obtain k where "(k, min_list (map snd ?d)) \<in> set ?d" by auto
    from key_is_task_id [OF ok1 this] now
    have "\<exists>i. 0 \<le> i \<and> i < length ts \<and> jrt_get ?d (task_id (ts ! i)) = current_time ?s3"
      by auto
    moreover have "\<forall>v \<in> snd ` set ?d. current_time ?s3 \<le> v"
    proof
      fix v assume "v \<in> snd ` set ?d"
      then have "v \<in> set (map snd ?d)" by simp
      from min_list_le [OF this] show "current_time ?s3 \<le> v" by (simp only: now)
    qed
    ultimately show ?thesis by blast
  qed
  with refs3 per2 log2 keys have "released_upto ts 0 ?s3"
    unfolding released_upto_def jrt_ok_def st3 by simp
  then show ?thesis by (simp add: iteration_def)
qed


text \<open>
  C10, as the code has it. For a non-empty task set whose periods are all positive and
  none of whose task ids is the string the scheduler uses as idle marker, the log of a
  run has no idle entry: all tasks are first released at 0, and when the active list
  becomes empty the clock jumps to the earliest next release, so every iteration
  dispatches a job.
\<close>

theorem no_idle_entries:
  assumes "ts \<noteq> []" and "\<forall>t \<in> set ts. 0 < period t" and "\<forall>t \<in> set ts. task_id t \<noteq> ''Idle''"
  shows "\<forall>e \<in> set (schedule_log (rate_monotonic_scheduling rnd k ts simulation_time)).
           snd e \<noteq> ''Idle''"
proof -
  have "released_upto ts 0 (rms_loop rnd simulation_time (sched_init k ts))"
  proof (rule rms_loop_invariant [where I = "released_upto ts 0"])
    show "released_upto ts 0 (sched_init k ts)" by (rule released_upto_init [OF assms(1)])
  next
    fix s' assume "released_upto ts 0 s'"
    from released_upto_iteration [OF this assms]
    show "released_upto ts 0 (iteration rnd s')" .
  qed
  then show ?thesis
    by (simp add: rate_monotonic_scheduling_def released_upto_def jrt_ok_def)
qed

theorem no_idle_entries_witness:
  "map period scenario_tasks = [4, 6] \<and> map task_id scenario_tasks = [''A'', ''B'']
   \<and> ''Idle'' \<notin> snd ` set (schedule_log (rate_monotonic_scheduling no_draws 0 scenario_tasks 12))"
proof -
  have fields: "map period scenario_tasks = [4, 6]" "map task_id scenario_tasks = [''A'', ''B'']"
    by (simp_all add: scenario_tasks_def Task_init_def generate_execution_time_def)
  have a: "scenario_tasks \<noteq> []" and b: "\<forall>t \<in> set scenario_tasks. 0 < period t"
    and c: "\<forall>t \<in> set scenario_tasks. task_id t \<noteq> ''Idle''"
    by (simp_all add: scenario_tasks_def Task_init_def generate_execution_time_def)
  from no_idle_entries [OF a b c, of no_draws 0 12]
  have "''Idle'' \<notin> snd ` set (schedule_log (rate_monotonic_scheduling no_draws 0 scenario_tasks 12))"
    by (auto simp del: set_map)
  with fields show ?thesis by blast
qed

text \<open>
  C10 as stated covers every non-empty task set. A task with period 0 is released once
  and the rest of the run is logged idle; and the ticks of a task whose id is
  \<open>''Idle''\<close> are logged with the idle marker.
\<close>

theorem no_idle_entries_counterexample:
  "schedule_log (rate_monotonic_scheduling no_draws 0
       [fst (Task_init no_draws 0 ''T'' 1 1 0 0 1)] 3)
     = [(0, ''T''), (1, ''Idle''), (2, ''Idle'')]
   \<and> schedule_log (rate_monotonic_scheduling no_draws 0
       [fst (Task_init no_draws 0 ''Idle'' 1 1 10 10 1)] 10)
     = [(0, ''Idle'')]"
  by (simp add: sched_eval rms_loop.simps)

section \<open>Determinism\<close>









end
